theory Spec2Isabelle
  imports Complex_Main "HOL-Library.Sublist" "HOL-Library.Log_Nat"
begin

section \<open>Strings and arrays of the host language\<close>

text \<open>
  The summarizer of \<^verbatim>\<open>src/apps/mcp-server-sample/src/index.ts\<close> works on
  strings. A string is modelled as a \<^typ>\<open>string\<close>, one \<^typ>\<open>char\<close> per code unit, so the
  model covers the texts whose code units lie in U+0000 .. U+00FF. On that range the
  classes and the case mapping below are those of the language: \<^verbatim>\<open>\s\<close> and
  \<^verbatim>\<open>trim\<close> know the seven blanks TAB, LF, VT, FF, CR, SPACE and NBSP, and
  \<^verbatim>\<open>toLowerCase\<close> moves A-Z and U+00C0 .. U+00DE (without U+00D7) up by 32.

  Numbers: counts, indices and lengths are natural numbers and \<^verbatim>\<open>maxSentences\<close>
  is an integer. A score is a number of the binary64 format, modelled as the rational
  it denotes; every arithmetic operation on scores rounds its exact result to the
  nearest number of the format, ties to the even significand.
\<close>

definition isWhitespace :: "char \<Rightarrow> bool" where
  "isWhitespace c \<longleftrightarrow>
     c \<in> {CHR 0x09, CHR 0x0A, CHR 0x0B, CHR 0x0C, CHR 0x0D, CHR 0x20, CHR 0xA0}"

definition isTerminator :: "char \<Rightarrow> bool" where
  \<comment> \<open>the class \<^verbatim>\<open>[.!?]\<close>\<close>
  "isTerminator c \<longleftrightarrow> c \<in> {CHR ''.'', CHR ''!'', CHR ''?''}"

definition isPunctuation :: "char \<Rightarrow> bool" where
  \<comment> \<open>the class \<^verbatim>\<open>[.,!?;:()\[\]{}'"]\<close>\<close>
  "isPunctuation c \<longleftrightarrow>
     c \<in> {CHR ''.'', CHR '','', CHR ''!'', CHR ''?'', CHR '';'', CHR '':'',
          CHR ''('', CHR '')'', CHR ''['', CHR '']'', CHR ''{'', CHR ''}'',
          CHR 0x27, CHR 0x22}"

definition lowerChar :: "char \<Rightarrow> char" where
  "lowerChar c =
     (let n = (of_char c :: nat)
      in if (65 \<le> n \<and> n \<le> 90) \<or> (192 \<le> n \<and> n \<le> 222 \<and> n \<noteq> 215)
         then char_of (n + 32) else c)"

definition toLowerCase :: "string \<Rightarrow> string" where
  "toLowerCase s = map lowerChar s"

definition trim :: "string \<Rightarrow> string" where
  "trim s = rev (dropWhile isWhitespace (rev (dropWhile isWhitespace s)))"

text \<open>
  \<^verbatim>\<open>s.replace(/([.!?])\s+/g, '$1|')\<close>: scanning from the left, a terminator that is
  directly followed by a blank matches together with the whole run of blanks after it;
  the match is replaced by the terminator and a bar, and the scan goes on behind the run.
\<close>

definition startsBlank :: "string \<Rightarrow> bool" where
  "startsBlank cs = (case cs of [] \<Rightarrow> False | d # _ \<Rightarrow> isWhitespace d)"

function replaceBoundaries :: "string \<Rightarrow> string" where
  "replaceBoundaries [] = []"
| "replaceBoundaries (c # cs) =
     (if isTerminator c \<and> startsBlank cs
      then c # CHR ''|'' # replaceBoundaries (dropWhile isWhitespace cs)
      else c # replaceBoundaries cs)"
  by pat_completeness auto
termination
  by (relation "measure length") (auto simp: length_dropWhile_le less_Suc_eq_le)

text \<open>\<^verbatim>\<open>s.split(d)\<close> for a one-character separator: the empty string gives one empty piece.\<close>

fun splitOn :: "char \<Rightarrow> string \<Rightarrow> string list" where
  "splitOn d [] = [[]]"
| "splitOn d (c # cs) =
     (if c = d then [] # splitOn d cs
      else (case splitOn d cs of [] \<Rightarrow> [[c]] | w # ws \<Rightarrow> (c # w) # ws))"

text \<open>\<^verbatim>\<open>s.split(/\s+/)\<close>: every maximal run of blanks is one separator.\<close>

function splitWhitespace :: "string \<Rightarrow> string list" where
  "splitWhitespace [] = [[]]"
| "splitWhitespace (c # cs) =
     (if isWhitespace c then [] # splitWhitespace (dropWhile isWhitespace cs)
      else (case splitWhitespace cs of [] \<Rightarrow> [[c]] | w # ws \<Rightarrow> (c # w) # ws))"
  by pat_completeness auto
termination
  by (relation "measure length") (auto simp: length_dropWhile_le less_Suc_eq_le)

text \<open>\<^verbatim>\<open>xs.join(sep)\<close>\<close>

fun join :: "string \<Rightarrow> string list \<Rightarrow> string" where
  "join sep [] = []"
| "join sep [x] = x"
| "join sep (x # y # ys) = x @ sep @ join sep (y # ys)"

text \<open>
  \<^verbatim>\<open>xs.slice(start, end)\<close> with integer arguments: a negative bound counts from the
  end of the array, and both bounds are clamped to the array.
\<close>

definition sliceBound :: "nat \<Rightarrow> int \<Rightarrow> nat" where
  "sliceBound n k = (if k < 0 then nat (max (int n + k) 0) else nat (min k (int n)))"

definition slice :: "'a list \<Rightarrow> int \<Rightarrow> int \<Rightarrow> 'a list" where
  "slice xs start end =
     (let from = sliceBound (length xs) start; to = sliceBound (length xs) end
      in take (to - from) (drop from xs))"

text \<open>
  \<^verbatim>\<open>xs.sort(cmp)\<close>: the sort of the language is stable. An element goes in front of
  the first element of the sorted rest that the comparator does not put before it.
\<close>

fun insertBy :: "('a \<Rightarrow> 'a \<Rightarrow> rat) \<Rightarrow> 'a \<Rightarrow> 'a list \<Rightarrow> 'a list" where
  "insertBy cmp x [] = [x]"
| "insertBy cmp x (y # ys) =
     (if cmp x y \<le> 0 then x # y # ys else y # insertBy cmp x ys)"

definition sortBy :: "('a \<Rightarrow> 'a \<Rightarrow> rat) \<Rightarrow> 'a list \<Rightarrow> 'a list" where
  "sortBy cmp xs = foldr (insertBy cmp) xs []"

subsection \<open>Numbers of the binary64 format\<close>

text \<open>
  A positive number \<open>x\<close> with \<open>2\<^sup>e \<le> x < 2\<^sup>e\<^sup>+\<^sup>1\<close> is rounded to a multiple of
  \<open>2\<^sup>e\<^sup>-\<^sup>5\<^sup>2\<close>, which leaves 53 significant bits. The exponent range of the format
  is not modelled: the scores of a text lie far inside it.
\<close>

definition scaleUp :: "int \<Rightarrow> int \<Rightarrow> int" where
  \<comment> \<open>\<open>a * 2\<^sup>k\<close> for \<open>k \<ge> 0\<close>, and \<open>a\<close> itself for \<open>k < 0\<close>\<close>
  "scaleUp a k = a * 2 ^ nat k"

definition roundQuotient :: "int \<Rightarrow> int \<Rightarrow> int" where
  \<comment> \<open>the integer nearest to \<open>num / den\<close>, the even one of two that are equally near\<close>
  "roundQuotient num den =
     (let f = num div den; r = num mod den
      in if 2 * r < den then f else if den < 2 * r then f + 1
         else if even f then f else f + 1)"

definition binaryExponent :: "int \<Rightarrow> int \<Rightarrow> int" where
  \<comment> \<open>the \<open>e\<close> with \<open>2\<^sup>e \<le> p / q < 2\<^sup>e\<^sup>+\<^sup>1\<close>, for positive \<open>p\<close> and \<open>q\<close>\<close>
  "binaryExponent p q =
     (let d = bitlen p - bitlen q
      in if scaleUp q d \<le> scaleUp p (- d) then d else d - 1)"

definition roundPositive :: "rat \<Rightarrow> rat" where
  "roundPositive x =
     (let (p, q) = quotient_of x;
          e = binaryExponent p q;
          n = roundQuotient (scaleUp p (52 - e)) (scaleUp q (e - 52))
      in of_int (scaleUp n (e - 52)) / of_int (scaleUp 1 (52 - e)))"

definition toDouble :: "rat \<Rightarrow> rat" where
  "toDouble x =
     (if x = 0 then 0 else if 0 < x then roundPositive x else - roundPositive (- x))"

definition dadd :: "rat \<Rightarrow> rat \<Rightarrow> rat" where
  "dadd a b = toDouble (a + b)"

definition dsub :: "rat \<Rightarrow> rat \<Rightarrow> rat" where
  "dsub a b = toDouble (a - b)"

definition dmul :: "rat \<Rightarrow> rat \<Rightarrow> rat" where
  "dmul a b = toDouble (a * b)"

definition ddiv :: "rat \<Rightarrow> rat \<Rightarrow> rat" where
  "ddiv a b = toDouble (a / b)"

section \<open>The summarizer\<close>

subsection \<open>Sentence segmenter\<close>

definition splitIntoSentences :: "string \<Rightarrow> string list" where
  "splitIntoSentences text =
     filter (\<lambda>sentence. length (trim sentence) > 0)
       (splitOn CHR ''|'' (replaceBoundaries text))"

subsection \<open>Frequency model\<close>

text \<open>
  The chain \<^verbatim>\<open>toLowerCase().replace(/[.,!?;:()\[\]{}'"]/g, '').split(/\s+/).filter(word => word.length > 0)\<close>
  stands twice in the source, in \<^verbatim>\<open>calculateWordFrequency\<close> and in
  \<^verbatim>\<open>scoreSentence\<close>.
\<close>

definition normalizedWords :: "string \<Rightarrow> string list" where
  "normalizedWords s =
     filter (\<lambda>word. length word > 0)
       (splitWhitespace (filter (\<lambda>c. \<not> isPunctuation c) (toLowerCase s)))"

definition getOrZero :: "(string \<rightharpoonup> nat) \<Rightarrow> string \<Rightarrow> nat" where
  \<comment> \<open>\<^verbatim>\<open>m.get(word) || 0\<close>\<close>
  "getOrZero m word = (case m word of None \<Rightarrow> 0 | Some count \<Rightarrow> count)"

definition calculateWordFrequency :: "string \<Rightarrow> (string \<rightharpoonup> nat)" where
  "calculateWordFrequency text =
     fold (\<lambda>word frequency. frequency(word \<mapsto> getOrZero frequency word + 1))
       (normalizedWords text) Map.empty"

subsection \<open>Sentence scorer\<close>

text \<open>
  The position score is one of the literals \<^verbatim>\<open>1.5\<close>, \<^verbatim>\<open>1.2\<close> and
  \<^verbatim>\<open>1.0\<close>. Its two comparisons are written on the exact products; the rounded
  products \<^verbatim>\<open>totalSentences * 0.2\<close> and \<^verbatim>\<open>totalSentences * 0.8\<close> of the source
  decide them in the same way for every length an array can have (lemma
  \<open>positionScore_rounded\<close>).
\<close>

definition positionScore :: "nat \<Rightarrow> nat \<Rightarrow> rat" where
  "positionScore index totalSentences =
     (if index = 0 \<or> int index = int totalSentences - 1 then 15 / 10
      else if of_nat index < of_nat totalSentences * (2 / 10 :: rat)
              \<or> of_nat index > of_nat totalSentences * (8 / 10 :: rat) then 12 / 10
      else 1)"

text \<open>
  The decimal literals \<^verbatim>\<open>0.5\<close>, \<^verbatim>\<open>0.3\<close>, \<^verbatim>\<open>1.5\<close>, \<^verbatim>\<open>1.2\<close> and
  \<^verbatim>\<open>1.0\<close> denote the numbers of the format nearest to them, and \<^verbatim>\<open>+=\<close>,
  \<^verbatim>\<open>*\<close>, \<^verbatim>\<open>+\<close> and \<^verbatim>\<open>/\<close> round.
\<close>

definition scoreSentence :: "string \<Rightarrow> (string \<rightharpoonup> nat) \<Rightarrow> nat \<Rightarrow> nat \<Rightarrow> rat" where
  "scoreSentence sentence wordFrequency index totalSentences =
     (let words = normalizedWords sentence;
          frequencyScore =
            fold (\<lambda>word acc. dadd acc (of_nat (getOrZero wordFrequency word))) words 0;
          lengthScore = ddiv (of_nat (min (length words) 20)) 20
      in dmul (dadd (dmul frequencyScore (toDouble (5 / 10)))
                    (dmul lengthScore (toDouble (3 / 10))))
              (toDouble (positionScore index totalSentences)))"

subsection \<open>The scans, step by step\<close>







subsection \<open>Selector and entry point\<close>

record scoredSentence =
  sentence :: string
  score :: rat
  index :: nat

definition sentenceScores :: "string \<Rightarrow> scoredSentence list" where
  "sentenceScores text =
     (let sentences = splitIntoSentences text;
          wordFrequency = calculateWordFrequency text
      in map (\<lambda>(i, s). \<lparr>sentence = s,
                        score = scoreSentence s wordFrequency i (length sentences),
                        index = i\<rparr>)
           (enumerate 0 sentences))"

definition topSentences :: "string \<Rightarrow> int \<Rightarrow> scoredSentence list" where
  "topSentences text maxSentences =
     sortBy (\<lambda>a b. dsub (of_nat (index a)) (of_nat (index b)))
       (slice (sortBy (\<lambda>a b. dsub (score b) (score a)) (sentenceScores text))
          0 maxSentences)"

definition summarize :: "string \<Rightarrow> int \<Rightarrow> string" where
  "summarize text maxSentences =
     (if int (length (splitIntoSentences text)) \<le> maxSentences then text
      else join '' '' (map sentence (topSentences text maxSentences)))"


subsection \<open>Vocabulary of the properties\<close>

text \<open>
  A boundary is a terminator that is directly followed by a blank: the places where the
  pattern \<^verbatim>\<open>/([.!?])\s+/\<close> can start to match.
\<close>

fun hasBoundary :: "string \<Rightarrow> bool" where
  "hasBoundary [] = False"
| "hasBoundary (c # cs) = ((isTerminator c \<and> startsBlank cs) \<or> hasBoundary cs)"

section \<open>Properties\<close>

subsection \<open>Basic facts about the array operations\<close>

lemma splitIntoSentences_Nil: "splitIntoSentences [] = []"
  by (simp add: splitIntoSentences_def trim_def)

lemma sortBy_Nil: "sortBy cmp [] = []"
  by (simp add: sortBy_def)

lemma slice_zero_end: "slice xs 0 0 = []"
  by (simp add: slice_def sliceBound_def)

lemma fifth_less: "(of_nat i < of_nat t * (2 / 10 :: rat)) = (5 * i < t)"
proof -
  have "(of_nat i < of_nat t * (2 / 10 :: rat)) = ((of_nat (5 * i) :: rat) < of_nat t)"
    by (simp add: field_simps)
  also have "\<dots> = (5 * i < t)"
    by (rule of_nat_less_iff)
  finally show ?thesis .
qed

lemma four_fifths_less: "(of_nat t * (8 / 10 :: rat) < of_nat i) = (4 * t < 5 * i)"
proof -
  have "(of_nat t * (8 / 10 :: rat) < of_nat i) = ((of_nat (4 * t) :: rat) < of_nat (5 * i))"
    by (simp add: field_simps)
  also have "\<dots> = (4 * t < 5 * i)"
    by (rule of_nat_less_iff)
  finally show ?thesis .
qed

subsection \<open>Rounding\<close>

lemma scaleUp_pos: "0 < a \<Longrightarrow> 0 < scaleUp a k"
  by (simp add: scaleUp_def)

text \<open>Comparing scaled integers is comparing the quotient with a power of two.\<close>

lemma scale_le:
  assumes "0 < q"
  shows "(scaleUp q k \<le> scaleUp p (- k)) = ((2::rat) powi k \<le> of_int p / of_int q)"
proof (cases "0 \<le> k")
  case True
  have "(scaleUp q k \<le> scaleUp p (- k)) = (q * 2 ^ nat k \<le> p)"
    using True by (simp add: scaleUp_def)
  also have "\<dots> = ((of_int (q * 2 ^ nat k) :: rat) \<le> of_int p)"
    by (simp only: of_int_le_iff)
  also have "\<dots> = ((2::rat) ^ nat k \<le> of_int p / of_int q)"
    using assms by (simp add: pos_le_divide_eq mult.commute)
  finally show ?thesis
    using True by (simp add: power_int_def)
next
  case False
  have "(scaleUp q k \<le> scaleUp p (- k)) = (q \<le> p * 2 ^ nat (- k))"
    using False by (simp add: scaleUp_def)
  also have "\<dots> = ((of_int q :: rat) \<le> of_int (p * 2 ^ nat (- k)))"
    by (simp only: of_int_le_iff)
  also have "\<dots> = (inverse ((2::rat) ^ nat (- k)) \<le> of_int p / of_int q)"
    using assms by (simp add: field_simps)
  finally show ?thesis
    using False by (simp add: power_int_def power_one_over inverse_eq_divide)
qed

lemma binaryExponent_lower:
  assumes p: "0 < p" and q: "0 < q"
  shows "(2::rat) powi (binaryExponent p q) \<le> of_int p / of_int q"
proof (cases "scaleUp q (bitlen p - bitlen q) \<le> scaleUp p (- (bitlen p - bitlen q))")
  case True
  then show ?thesis
    using scale_le [OF q, of "bitlen p - bitlen q" p] by (simp add: binaryExponent_def)
next
  case False
  have bp: "1 \<le> bitlen p" and bq: "0 \<le> bitlen q"
    using p by (simp_all add: bitlen_alt_def)
  have "(2::int) ^ nat (bitlen p - 1) \<le> p"
    using bitlen_bounds [OF p] by simp
  then have "(of_int ((2::int) ^ nat (bitlen p - 1)) :: rat) \<le> of_int p"
    by (simp only: of_int_le_iff)
  then have lo: "(2::rat) powi (bitlen p - 1) \<le> of_int p"
    using bp by (simp add: power_int_def)
  have "q < 2 ^ nat (bitlen q)"
    using bitlen_bounds [OF q] by simp
  then have "(of_int q :: rat) < of_int ((2::int) ^ nat (bitlen q))"
    by (simp only: of_int_less_iff)
  then have hi: "(of_int q :: rat) \<le> 2 powi (bitlen q)"
    using bq by (simp add: power_int_def)
  have "(2::rat) powi (bitlen p - 1 - bitlen q) = 2 powi (bitlen p - 1) / 2 powi (bitlen q)"
    by (simp add: power_int_diff)
  also have "\<dots> \<le> of_int p / of_int q"
    using lo hi p q by (intro frac_le) simp_all
  finally show ?thesis
    using False by (simp add: binaryExponent_def algebra_simps)
qed

lemma roundQuotient_ge: "num div den \<le> roundQuotient num den"
  by (simp add: roundQuotient_def Let_def)

text \<open>Rounding keeps the sign, so the sign of a rounded difference compares the operands.\<close>

lemma roundPositive_pos:
  assumes "0 < x"
  shows "0 < roundPositive x"
proof -
  obtain p q where pq: "quotient_of x = (p, q)"
    by (cases "quotient_of x")
  have q: "0 < q"
    using pq by (rule quotient_of_denom_pos)
  have x: "x = of_int p / of_int q"
    using pq by (rule quotient_of_div)
  with assms q have p: "0 < p"
    by (simp add: zero_less_divide_iff)
  define e where "e = binaryExponent p q"
  define n where "n = roundQuotient (scaleUp p (52 - e)) (scaleUp q (e - 52))"
  have "(2::rat) powi (e - 52) \<le> 2 powi e"
    by (rule power_int_increasing) simp_all
  also have "\<dots> \<le> of_int p / of_int q"
    unfolding e_def using p q by (rule binaryExponent_lower)
  finally have "scaleUp q (e - 52) \<le> scaleUp p (- (e - 52))"
    by (simp only: scale_le [OF q])
  then have "scaleUp q (e - 52) \<le> scaleUp p (52 - e)"
    by simp
  moreover have "0 < scaleUp q (e - 52)"
    using q by (rule scaleUp_pos)
  ultimately have "0 < scaleUp p (52 - e) div scaleUp q (e - 52)"
    by (simp add: pos_imp_zdiv_pos_iff)
  with roundQuotient_ge [of "scaleUp p (52 - e)" "scaleUp q (e - 52)"] have "0 < n"
    by (simp add: n_def)
  then have "0 < scaleUp n (e - 52)"
    by (rule scaleUp_pos)
  moreover have "0 < scaleUp 1 (52 - e)"
    by (rule scaleUp_pos) simp
  ultimately have "(0::rat) < of_int (scaleUp n (e - 52)) / of_int (scaleUp 1 (52 - e))"
    by simp
  then show ?thesis
    by (simp add: roundPositive_def pq Let_def e_def n_def)
qed

lemma toDouble_le_zero: "(toDouble x \<le> 0) = (x \<le> 0)"
  using roundPositive_pos [of x] roundPositive_pos [of "- x"]
  by (auto simp: toDouble_def not_le dest: less_imp_le)

lemma dsub_le_zero: "(dsub a b \<le> 0) = (a \<le> b)"
  by (simp add: dsub_def toDouble_le_zero)





text \<open>
  The rounded number lies on the grid of its binade, at most half a grid step from
  the exact one.
\<close>

lemma scale_quotient:
  assumes "0 < b"
  shows "(of_int (scaleUp a k) :: rat) / of_int (scaleUp b (- k)) = of_int a / of_int b * 2 powi k"
proof (cases "0 \<le> k")
  case True
  then show ?thesis
    by (simp add: scaleUp_def power_int_def)
next
  case False
  then show ?thesis
    by (simp add: scaleUp_def power_int_def power_one_over divide_simps)
qed

lemma binaryExponent_upper:
  assumes p: "0 < p" and q: "0 < q"
  shows "of_int p / of_int q < (2::rat) powi (binaryExponent p q + 1)"
proof (cases "scaleUp q (bitlen p - bitlen q) \<le> scaleUp p (- (bitlen p - bitlen q))")
  case True
  have bp: "0 \<le> bitlen p" and bq: "1 \<le> bitlen q"
    using p q by (simp_all add: bitlen_alt_def)
  have "p < 2 ^ nat (bitlen p)"
    using bitlen_bounds [OF p] by simp
  then have "(of_int p :: rat) < of_int ((2::int) ^ nat (bitlen p))"
    by (simp only: of_int_less_iff)
  then have hi: "(of_int p :: rat) < 2 powi (bitlen p)"
    using bp by (simp add: power_int_def)
  have "(2::int) ^ nat (bitlen q - 1) \<le> q"
    using bitlen_bounds [OF q] by simp
  then have "(of_int ((2::int) ^ nat (bitlen q - 1)) :: rat) \<le> of_int q"
    by (simp only: of_int_le_iff)
  then have lo: "(2::rat) powi (bitlen q - 1) \<le> of_int q"
    using bq by (simp add: power_int_def)
  have "of_int p / of_int q < (2::rat) powi (bitlen p) / 2 powi (bitlen q - 1)"
    using hi lo p by (intro frac_less) simp_all
  also have "\<dots> = 2 powi (bitlen p - (bitlen q - 1))"
    by (simp add: power_int_diff)
  finally show ?thesis
    using True by (simp add: binaryExponent_def algebra_simps)
next
  case False
  have e: "binaryExponent p q + 1 = bitlen p - bitlen q"
    using False by (simp add: binaryExponent_def Let_def)
  from False have "\<not> (2::rat) powi (bitlen p - bitlen q) \<le> of_int p / of_int q"
    using scale_le [OF q, of "bitlen p - bitlen q" p] by blast
  then show ?thesis
    unfolding e by simp
qed

lemma roundQuotient_near:
  assumes "0 < den"
  shows "\<bar>of_int (roundQuotient num den) - (of_int num / of_int den :: rat)\<bar> \<le> 1 / 2"
proof -
  define f where "f = num div den"
  define r where "r = num mod den"
  define \<rho> :: rat where "\<rho> = of_int r / of_int den"
  have "num = den * f + r"
    by (simp add: f_def r_def)
  then have "(of_int num :: rat) = of_int den * of_int f + of_int r"
    by (metis of_int_add of_int_mult)
  then have q: "(of_int num / of_int den :: rat) = of_int f + \<rho>"
    using assms by (simp add: \<rho>_def field_simps)
  have r: "0 \<le> r" "r < den"
    using assms by (simp_all add: r_def)
  have c1: "(2 * r < den) = (\<rho> < 1 / 2)"
  proof -
    have "(2 * r < den) = ((of_int (2 * r) :: rat) < of_int den)"
      by (simp only: of_int_less_iff)
    also have "\<dots> = (\<rho> < 1 / 2)"
      using assms by (simp add: \<rho>_def field_simps)
    finally show ?thesis .
  qed
  have c2: "(den < 2 * r) = (1 / 2 < \<rho>)"
  proof -
    have "(den < 2 * r) = ((of_int den :: rat) < of_int (2 * r))"
      by (simp only: of_int_less_iff)
    also have "\<dots> = (1 / 2 < \<rho>)"
      using assms by (simp add: \<rho>_def field_simps)
    finally show ?thesis .
  qed
  have b: "0 \<le> \<rho>" "\<rho> < 1"
    using r assms by (simp_all add: \<rho>_def)
  have "roundQuotient num den =
      (if \<rho> < 1 / 2 then f else if 1 / 2 < \<rho> then f + 1 else if even f then f else f + 1)"
    by (simp add: roundQuotient_def Let_def f_def [symmetric] r_def [symmetric] c1 c2)
  with b show ?thesis
    by (auto simp: q)
qed

lemma roundPositive_shape:
  assumes "0 < x"
  obtains N e where "roundPositive x = of_int N * 2 powi (e - 52)"
    and "(2::rat) powi e \<le> x" and "x < 2 powi (e + 1)"
    and "\<bar>of_int N - x / 2 powi (e - 52)\<bar> \<le> 1 / 2"
proof -
  obtain p q where pq: "quotient_of x = (p, q)"
    by (cases "quotient_of x")
  have q: "0 < q"
    using pq by (rule quotient_of_denom_pos)
  have x: "x = of_int p / of_int q"
    using pq by (rule quotient_of_div)
  with assms q have p: "0 < p"
    by (simp add: zero_less_divide_iff)
  define e where "e = binaryExponent p q"
  define N where "N = roundQuotient (scaleUp p (52 - e)) (scaleUp q (e - 52))"
  have one: "(of_int (scaleUp 1 (52 - e)) :: rat) = of_int (scaleUp 1 (- (e - 52)))"
    by simp
  have "roundPositive x = of_int (scaleUp N (e - 52)) / of_int (scaleUp 1 (52 - e))"
    by (simp add: roundPositive_def pq Let_def e_def N_def)
  also have "\<dots> = of_int N / of_int 1 * 2 powi (e - 52)"
    unfolding one by (rule scale_quotient) simp
  finally have shape: "roundPositive x = of_int N * 2 powi (e - 52)"
    by simp
  have "(of_int (scaleUp p (52 - e)) :: rat) / of_int (scaleUp q (- (52 - e)))
      = of_int p / of_int q * 2 powi (52 - e)"
    using q by (rule scale_quotient)
  then have "(of_int (scaleUp p (52 - e)) :: rat) / of_int (scaleUp q (e - 52))
      = x * 2 powi (52 - e)"
    by (simp add: x)
  also have "\<dots> = x / 2 powi (e - 52)"
    using power_int_minus [of "2::rat" "e - 52"] by (simp add: field_simps)
  finally have quot: "(of_int (scaleUp p (52 - e)) :: rat) / of_int (scaleUp q (e - 52))
      = x / 2 powi (e - 52)" .
  have "0 < scaleUp q (e - 52)"
    using q by (rule scaleUp_pos)
  then have near: "\<bar>of_int N - x / 2 powi (e - 52)\<bar> \<le> 1 / 2"
    unfolding N_def quot [symmetric] by (rule roundQuotient_near)
  have lo: "(2::rat) powi e \<le> x"
    unfolding e_def x using p q by (rule binaryExponent_lower)
  have hi: "x < 2 powi (e + 1)"
    unfolding e_def x using p q by (rule binaryExponent_upper)
  from shape lo hi near show ?thesis
    by (rule that)
qed

lemma toDouble_shape:
  assumes "0 < x" and "x < 2 ^ 49"
  obtains u N J where "(0::rat) < u" and "toDouble x = of_int N * u"
    and "x / u - 1 / 2 \<le> of_int N" and "of_int N \<le> x / u + 1 / 2"
    and "1 / 8 = of_int J * u" and "x < u * 2 ^ 53"
proof -
  obtain N e where shape: "roundPositive x = of_int N * 2 powi (e - 52)"
    and lo: "(2::rat) powi e \<le> x" and hi: "x < 2 powi (e + 1)"
    and near: "\<bar>of_int N - x / 2 powi (e - 52)\<bar> \<le> 1 / 2"
    using assms(1) by (rule roundPositive_shape)
  define u where "u = (2::rat) powi (e - 52)"
  have u: "0 < u"
    by (simp add: u_def)
  have "(2::rat) powi e < 2 powi 49"
    using lo assms(2) by simp
  then have "e < 49"
    by (rule power_int_le_imp_less_exp [rotated]) simp_all
  then have e: "0 \<le> 49 - e"
    by simp
  have "(2::rat) powi (49 - e) * 2 powi (e - 52) = 2 powi ((49 - e) + (e - 52))"
    by (rule power_int_add [symmetric]) simp
  also have "\<dots> = 1 / 8"
    by (simp add: power_int_def power_one_over)
  finally have "1 / 8 = (2::rat) ^ nat (49 - e) * u"
    using e by (simp add: power_int_def u_def)
  then have j: "1 / 8 = of_int (2 ^ nat (49 - e)) * u"
    by simp
  have "e + 1 = (e - 52) + 53"
    by simp
  then have "(2::rat) powi (e + 1) = 2 powi ((e - 52) + 53)"
    by (simp only:)
  also have "\<dots> = 2 powi (e - 52) * 2 powi 53"
    by (rule power_int_add) simp
  finally have "x < u * 2 ^ 53"
    using hi by (simp add: u_def)
  moreover have "toDouble x = of_int N * u"
    using assms(1) shape by (simp add: toDouble_def u_def)
  moreover have "x / u - 1 / 2 \<le> of_int N" and "of_int N \<le> x / u + 1 / 2"
    using near unfolding u_def by linarith+
  ultimately show ?thesis
    using u j by (intro that [of u N "2 ^ nat (49 - e)"]) simp_all
qed

text \<open>
  Below \<open>2\<^sup>4\<^sup>9\<close> the eighths are on every grid, so rounding does not cross an eighth,
  and a number that exceeds an integer \<open>k\<close> by at most \<open>k / 2\<^sup>5\<^sup>4\<close> is rounded down to it.
\<close>

lemma toDouble_eighth_lower:
  assumes "0 < x" and "x < 2 ^ 49" and "of_int k / 8 \<le> x"
  shows "of_int k / 8 \<le> toDouble x"
proof -
  obtain u N J where u: "(0::rat) < u" and r: "toDouble x = of_int N * u"
    and near: "x / u - 1 / 2 \<le> of_int N" "of_int N \<le> x / u + 1 / 2"
    and j: "1 / 8 = of_int J * u"
    using assms(1,2) by (rule toDouble_shape)
  have g: "of_int k / 8 = of_int (k * J) * u"
    using j by simp
  with assms(3) u have "of_int (k * J) \<le> x / u"
    by (simp add: pos_le_divide_eq)
  with near(1) have "(of_int (k * J) :: rat) < of_int (N + 1)"
    by simp
  then have "k * J \<le> N"
    by (simp only: of_int_less_iff zle_add1_eq_le zless_add1_eq)
  then have "(of_int (k * J) :: rat) \<le> of_int N"
    by (simp only: of_int_le_iff)
  with u show ?thesis
    unfolding g r by (simp add: mult_right_mono)
qed

lemma toDouble_eighth_upper:
  assumes "0 < x" and "x < 2 ^ 49" and "x \<le> of_int k / 8"
  shows "toDouble x \<le> of_int k / 8"
proof -
  obtain u N J where u: "(0::rat) < u" and r: "toDouble x = of_int N * u"
    and near: "x / u - 1 / 2 \<le> of_int N" "of_int N \<le> x / u + 1 / 2"
    and j: "1 / 8 = of_int J * u"
    using assms(1,2) by (rule toDouble_shape)
  have g: "of_int k / 8 = of_int (k * J) * u"
    using j by simp
  with assms(3) u have "x / u \<le> of_int (k * J)"
    by (simp add: pos_divide_le_eq)
  with near(2) have "(of_int N :: rat) < of_int (k * J + 1)"
    by simp
  then have "N \<le> k * J"
    by (simp only: of_int_less_iff zle_add1_eq_le zless_add1_eq)
  then have "(of_int N :: rat) \<le> of_int (k * J)"
    by (simp only: of_int_le_iff)
  with u show ?thesis
    unfolding g r by (simp add: mult_right_mono)
qed

lemma toDouble_near_int:
  assumes "0 < x" and "x < 2 ^ 49" and "x \<le> of_int k * (1 + 1 / 2 ^ 54)"
  shows "toDouble x \<le> of_int k"
proof -
  obtain u N J where u: "(0::rat) < u" and r: "toDouble x = of_int N * u"
    and near: "x / u - 1 / 2 \<le> of_int N" "of_int N \<le> x / u + 1 / 2"
    and j: "1 / 8 = of_int J * u"
    and hi: "x < u * 2 ^ 53"
    using assms(1,2) by (rule toDouble_shape)
  have g: "of_int k = of_int (8 * k * J) * u"
    using j by simp
  have "x < of_int k + u / 2"
  proof (cases "x \<le> of_int k")
    case True
    with u show ?thesis by simp
  next
    case False
    with hi have "of_int k < u * 2 ^ 53"
      by simp
    then have "of_int k / 2 ^ 54 < u / 2"
      by simp
    with assms(3) show ?thesis
      by (simp add: algebra_simps)
  qed
  moreover have "(of_int (8 * k * J) + 1 / 2) * u = of_int k + u / 2"
    by (simp only: distrib_right g [symmetric] times_divide_eq_left mult_1)
  ultimately have "x < (of_int (8 * k * J) + 1 / 2) * u"
    by (simp only:)
  with u have "x / u < of_int (8 * k * J) + 1 / 2"
    by (simp add: pos_divide_less_eq)
  with near(2) have "(of_int N :: rat) < of_int (8 * k * J + 1)"
    by simp
  then have "N \<le> 8 * k * J"
    by (simp only: of_int_less_iff zle_add1_eq_le zless_add1_eq)
  then have "(of_int N :: rat) \<le> of_int (8 * k * J)"
    by (simp only: of_int_le_iff)
  with u show ?thesis
    unfolding g r by (simp add: mult_right_mono)
qed

text \<open>
  The comparisons of the position score: for an array of fewer than \<open>2\<^sup>3\<^sup>2\<close> elements
  the rounded products \<^verbatim>\<open>totalSentences * 0.2\<close> and \<^verbatim>\<open>totalSentences * 0.8\<close>
  decide them as the exact products do.
\<close>

lemma fifth_rounded: "toDouble (2 / 10) = (1 + 1 / 2 ^ 54) / 5"
  by code_simp

lemma four_fifths_rounded: "toDouble (8 / 10) = 4 * (1 + 1 / 2 ^ 54) / 5"
  by code_simp

lemma fifth_less_rounded:
  assumes n: "n < 2 ^ 32"
  shows "(of_nat i < dmul (of_nat n) (toDouble (2 / 10))) = (5 * i < n)"
proof (cases "n = 0")
  case True
  then show ?thesis
    by (simp add: dmul_def toDouble_def)
next
  case False
  define x :: rat where "x = of_nat n * ((1 + 1 / 2 ^ 54) / 5)"
  have r: "dmul (of_nat n) (toDouble (2 / 10)) = toDouble x"
    by (simp only: dmul_def fifth_rounded x_def)
  have "(of_nat n :: rat) < of_nat (2 ^ 32)"
    using n by (simp only: of_nat_less_iff)
  then have n': "(of_nat n :: rat) < 2 ^ 32"
    by simp
  have n0: "(0::rat) < of_nat n"
    using False by simp
  have x0: "0 < x"
    using n0 by (simp add: x_def)
  have xs: "5 * x = of_nat n + of_nat n / 2 ^ 54"
    by (simp add: x_def algebra_simps)
  have x49: "x < 2 ^ 49"
    using n' n0 xs by simp
  show ?thesis
  proof (cases "5 * i < n")
    case True
    then have "5 * i + 1 \<le> n"
      by simp
    then have "(of_nat (5 * i + 1) :: rat) \<le> of_nat n"
      by (simp only: of_nat_le_iff)
    then have "(of_int (8 * int i + 1) :: rat) / 8 \<le> x"
      using xs n0 by simp
    with x0 x49 have "(of_int (8 * int i + 1) :: rat) / 8 \<le> toDouble x"
      by (rule toDouble_eighth_lower)
    then have "(of_nat i :: rat) < toDouble x"
      by simp
    with True show ?thesis
      by (simp only: r)
  next
    case False
    then have "n \<le> 5 * i"
      by simp
    then have "(of_nat n :: rat) \<le> of_nat (5 * i)"
      by (simp only: of_nat_le_iff)
    then have "x \<le> of_int (int i) * (1 + 1 / 2 ^ 54)"
      by (simp add: x_def)
    with x0 x49 have "toDouble x \<le> of_int (int i)"
      by (rule toDouble_near_int)
    then have "\<not> (of_nat i :: rat) < toDouble x"
      by simp
    with False show ?thesis
      by (simp only: r)
  qed
qed

lemma four_fifths_less_rounded:
  assumes n: "n < 2 ^ 32"
  shows "(dmul (of_nat n) (toDouble (8 / 10)) < of_nat i) = (4 * n < 5 * i)"
proof (cases "n = 0")
  case True
  then show ?thesis
    by (simp add: dmul_def toDouble_def)
next
  case False
  define x :: rat where "x = of_nat n * (4 * (1 + 1 / 2 ^ 54) / 5)"
  have r: "dmul (of_nat n) (toDouble (8 / 10)) = toDouble x"
    by (simp only: dmul_def four_fifths_rounded x_def)
  have "(of_nat n :: rat) < of_nat (2 ^ 32)"
    using n by (simp only: of_nat_less_iff)
  then have n': "(of_nat n :: rat) < 2 ^ 32"
    by simp
  have n0: "(0::rat) < of_nat n"
    using False by simp
  have x0: "0 < x"
    using n0 by (simp add: x_def)
  have xs: "5 * x = 4 * of_nat n + 4 * of_nat n / 2 ^ 54"
    by (simp add: x_def algebra_simps)
  have x49: "x < 2 ^ 49"
    using n' n0 xs by simp
  show ?thesis
  proof (cases "4 * n < 5 * i")
    case True
    then have "4 * n + 1 \<le> 5 * i"
      by simp
    then have "(of_nat (4 * n + 1) :: rat) \<le> of_nat (5 * i)"
      by (simp only: of_nat_le_iff)
    then have "x \<le> (of_int (8 * int i - 1) :: rat) / 8"
      using xs n' n0 by simp
    with x0 x49 have "toDouble x \<le> (of_int (8 * int i - 1) :: rat) / 8"
      by (rule toDouble_eighth_upper)
    then have "toDouble x < (of_nat i :: rat)"
      by simp
    with True show ?thesis
      by (simp only: r)
  next
    case False
    then have "5 * i \<le> 4 * n"
      by simp
    then have "(of_nat (5 * i) :: rat) \<le> of_nat (4 * n)"
      by (simp only: of_nat_le_iff)
    then have "(of_int (8 * int i) :: rat) / 8 \<le> x"
      using xs n0 by simp
    with x0 x49 have "(of_int (8 * int i) :: rat) / 8 \<le> toDouble x"
      by (rule toDouble_eighth_lower)
    then have "\<not> toDouble x < (of_nat i :: rat)"
      by simp
    with False show ?thesis
      by (simp only: r)
  qed
qed

lemma positionScore_rounded:
  assumes "n < 2 ^ 32"
  shows "positionScore i n =
     (if i = 0 \<or> int i = int n - 1 then 15 / 10
      else if of_nat i < dmul (of_nat n) (toDouble (2 / 10))
              \<or> of_nat i > dmul (of_nat n) (toDouble (8 / 10)) then 12 / 10
      else 1)"
  by (simp only: positionScore_def fifth_less four_fifths_less
      fifth_less_rounded [OF assms] four_fifths_less_rounded [OF assms])

subsection \<open>The short-circuit\<close>

text \<open>
  C1. A text with at most \<^verbatim>\<open>maxSentences\<close> sentences is returned as it is; the
  witness covers a one-sentence text and the empty text.
\<close>

theorem summarize_short_identity:
  assumes "int (length (splitIntoSentences text)) \<le> maxSentences"
  shows "summarize text maxSentences = text"
  using assms by (simp add: summarize_def)

theorem summarize_short_identity_witness:
  "int (length (splitIntoSentences ''Hello world.'')) \<le> 3
   \<and> summarize ''Hello world.'' 3 = ''Hello world.''
   \<and> int (length (splitIntoSentences [])) \<le> 0
   \<and> summarize [] 0 = []"
proof -
  have h1: "int (length (splitIntoSentences ''Hello world.'')) \<le> 3"
    by code_simp
  have h2: "int (length (splitIntoSentences [])) \<le> 0"
    by (simp add: splitIntoSentences_Nil)
  from h1 h2 summarize_short_identity [OF h1] summarize_short_identity [OF h2]
  show ?thesis by blast
qed

text \<open>
  C6. With \<^verbatim>\<open>maxSentences = 0\<close> a text of three sentences is not returned as it
  is: no entry is taken and the summary is the empty string.
\<close>

theorem summarize_zero_of_three:
  assumes "length (splitIntoSentences text) = 3"
  shows "summarize text 0 = []"
  using assms by (simp add: summarize_def topSentences_def slice_zero_end sortBy_Nil)

theorem summarize_zero_of_three_witness:
  "length (splitIntoSentences ''One. Two. Three.'') = 3
   \<and> summarize ''One. Two. Three.'' 0 = []"
proof -
  have h: "length (splitIntoSentences ''One. Two. Three.'') = 3"
    by code_simp
  from h summarize_zero_of_three [OF h] show ?thesis by blast
qed

subsection \<open>The scorer\<close>

text \<open>
  C4. For a position \<open>i\<close> below the number \<open>n\<close> of sentences the position score is
  3/2 at the first and at the last position, else 6/5 strictly inside the first or the
  last fifth (\<open>5 * i < n\<close> or \<open>4 * n < 5 * i\<close>), else 1. A position exactly at a fifth
  (\<open>5 * i = n\<close>) or at four fifths (\<open>5 * i = 4 * n\<close>) gets 1.
\<close>

theorem positionScore_cases:
  assumes "i < n"
  shows "positionScore i n =
           (if i = 0 \<or> Suc i = n then 3 / 2
            else if 5 * i < n \<or> 4 * n < 5 * i then 6 / 5
            else 1)"
proof -
  have "(int i = int n - 1) = (Suc i = n)"
    by auto
  then show ?thesis
    by (simp add: positionScore_def fifth_less four_fifths_less)
qed

theorem positionScore_cases_witness:
  "(0::nat) < 10 \<and> positionScore 0 10 = 3 / 2
   \<and> (9::nat) < 10 \<and> positionScore 9 10 = 3 / 2
   \<and> (1::nat) < 10 \<and> positionScore 1 10 = 6 / 5
   \<and> (2::nat) < 10 \<and> positionScore 2 10 = 1
   \<and> (8::nat) < 10 \<and> positionScore 8 10 = 1"
  using positionScore_cases [of 0 10] positionScore_cases [of 9 10]
    positionScore_cases [of 1 10] positionScore_cases [of 2 10] positionScore_cases [of 8 10]
  by simp



subsection \<open>Sorting and selection\<close>

text \<open>
  Both comparators of \<^verbatim>\<open>summarize\<close> compare a key, so each of the two sorts is
  the stable insertion sort by that key: by falling score, then by rising index.
\<close>

lemma insertBy_key:
  fixes key :: "'a \<Rightarrow> 'k::linorder"
  assumes "\<And>a b. (cmp a b \<le> 0) = (key a \<le> key b)"
  shows "insertBy cmp x ys = insort_key key x ys"
  by (induction ys) (simp_all add: assms)

lemma sortBy_key:
  fixes key :: "'a \<Rightarrow> 'k::linorder"
  assumes "\<And>a b. (cmp a b \<le> 0) = (key a \<le> key b)"
  shows "sortBy cmp xs = sort_key key xs"
proof -
  have "insertBy cmp = insort_key key"
    by (intro ext) (rule insertBy_key [OF assms])
  then show ?thesis
    by (simp add: sortBy_def sort_key_def)
qed

lemma sortBy_score:
  "sortBy (\<lambda>a b. dsub (score b) (score a)) xs = sort_key (\<lambda>a. - score a) xs"
  by (rule sortBy_key) (simp add: dsub_le_zero)

lemma sortBy_index:
  "sortBy (\<lambda>a b. dsub (of_nat (index a)) (of_nat (index b))) xs = sort_key index xs"
  by (rule sortBy_key) (simp add: dsub_le_zero)

lemma slice_from_zero: "slice xs 0 m = take (sliceBound (length xs) m) xs"
  by (simp add: slice_def sliceBound_def)

lemma sliceBound_le: "sliceBound n m \<le> n"
  by (auto simp: sliceBound_def)

text \<open>The scored list keeps the sentences in order and numbers them from 0.\<close>

lemma map_index_sentenceScores:
  "map index (sentenceScores text) = [0..<length (splitIntoSentences text)]"
  by (simp add: sentenceScores_def Let_def split_beta comp_def)

lemma map_sentence_sentenceScores:
  "map sentence (sentenceScores text) = splitIntoSentences text"
  by (simp add: sentenceScores_def Let_def split_beta comp_def)

lemma length_sentenceScores:
  "length (sentenceScores text) = length (splitIntoSentences text)"
  by (simp add: sentenceScores_def Let_def)

text \<open>
  Sorting a selection of a list by a key that is rising and free of repetitions on the
  list restores the order of the list.
\<close>

lemma sort_key_selection:
  fixes key :: "'a \<Rightarrow> 'k::linorder"
  assumes srt: "sorted (map key xs)" and dst: "distinct (map key xs)"
    and dz: "distinct zs" and sub: "set zs \<subseteq> set xs"
  shows "sort_key key zs = filter (\<lambda>x. x \<in> set zs) xs"
proof -
  let ?L = "sort_key key zs" and ?R = "filter (\<lambda>x. x \<in> set zs) xs"
  from dst have inj: "inj_on key (set xs)"
    by (simp add: distinct_map)
  have injL: "inj_on key (set ?L)"
    using inj sub by (auto intro: inj_on_subset)
  have "sorted (map key ?L)"
    by (rule sorted_sort_key)
  moreover have "distinct (map key ?L)"
    using dz injL by (simp add: distinct_map)
  moreover have "sorted (map key ?R)"
    using srt by (rule sorted_filter)
  moreover have "distinct (map key ?R)"
    using dst by (rule distinct_map_filter)
  moreover have "set (map key ?L) = set (map key ?R)"
    using sub by auto
  ultimately have "map key ?L = map key ?R"
    by (rule sorted_distinct_set_unique)
  moreover have "inj_on key (set ?L \<union> set ?R)"
    using inj sub by (auto intro: inj_on_subset)
  ultimately show ?thesis
    by (rule map_inj_on)
qed

lemma distinct_sentenceScores: "distinct (map index (sentenceScores text))"
  by (simp add: map_index_sentenceScores)

lemma sorted_sentenceScores: "sorted (map index (sentenceScores text))"
  by (simp add: map_index_sentenceScores)

lemma topSentences_taken:
  "topSentences text m =
     sort_key index (take (sliceBound (length (splitIntoSentences text)) m)
       (sort_key (\<lambda>a. - score a) (sentenceScores text)))"
  by (simp add: topSentences_def sortBy_score sortBy_index slice_from_zero
      length_sentenceScores)

lemma topSentences_filter:
  "topSentences text m =
     filter (\<lambda>x. x \<in> set (topSentences text m)) (sentenceScores text)"
proof -
  let ?S = "sentenceScores text"
  let ?T = "take (sliceBound (length (splitIntoSentences text)) m)
              (sort_key (\<lambda>a. - score a) ?S)"
  have "distinct ?S"
    using distinct_sentenceScores [of "text"] by (simp add: distinct_map)
  then have dT: "distinct ?T"
    by simp
  have sub: "set ?T \<subseteq> set ?S"
    using set_take_subset [of _ "sort_key (\<lambda>a. - score a) ?S"] by simp
  have sel: "sort_key index ?T = filter (\<lambda>x. x \<in> set ?T) ?S"
    using sorted_sentenceScores distinct_sentenceScores dT sub
    by (rule sort_key_selection)
  have st: "set (topSentences text m) = set ?T"
    by (simp only: topSentences_taken set_sort)
  have "topSentences text m = filter (\<lambda>x. x \<in> set ?T) ?S"
    using sel by (simp only: topSentences_taken)
  then show ?thesis
    unfolding st .
qed

lemma topSentences_subseq: "subseq (topSentences text m) (sentenceScores text)"
  by (subst topSentences_filter) (rule subseq_filter_left)

lemma topSentences_length:
  "length (topSentences text m) = sliceBound (length (splitIntoSentences text)) m"
  by (simp add: topSentences_taken length_sentenceScores sliceBound_le)

lemma topSentences_best:
  assumes a: "a \<in> set (topSentences text m)"
    and b: "b \<in> set (sentenceScores text)" and nb: "b \<notin> set (topSentences text m)"
  shows "score b \<le> score a"
proof -
  let ?D = "sort_key (\<lambda>a. - score a) (sentenceScores text)"
  let ?k = "sliceBound (length (splitIntoSentences text)) m"
  have "sorted (map (\<lambda>a. - score a) (take ?k ?D @ drop ?k ?D))"
    by (simp add: sorted_sort_key)
  then have ord: "\<forall>x\<in>set (take ?k ?D). \<forall>y\<in>set (drop ?k ?D). - score x \<le> - score y"
    unfolding map_append sorted_append by auto
  from a have a': "a \<in> set (take ?k ?D)"
    by (simp add: topSentences_taken)
  from nb have "b \<notin> set (take ?k ?D)"
    by (simp add: topSentences_taken)
  moreover have "b \<in> set (take ?k ?D @ drop ?k ?D)"
    using b by simp
  ultimately have "b \<in> set (drop ?k ?D)"
    unfolding set_append by blast
  with a' ord show ?thesis
    by auto
qed

subsection \<open>The text of five one-letter sentences\<close>

text \<open>
  The scores of \<^verbatim>\<open>"A. B. C. D. E."\<close> are 0.7725 for the first and the last sentence
  and 0.515 for the three in between, as numbers of the format.
\<close>

lemma split_five:
  "splitIntoSentences ''A. B. C. D. E.'' = [''A.'', ''B.'', ''C.'', ''D.'', ''E.'']"
  by code_simp

lemma sentenceScores_five:
  "sentenceScores ''A. B. C. D. E.'' =
     [\<lparr>sentence = ''A.'', score = 869757678035927 / 1125899906842624, index = 0\<rparr>,
      \<lparr>sentence = ''B.'', score = 4638707616191611 / 9007199254740992, index = 1\<rparr>,
      \<lparr>sentence = ''C.'', score = 4638707616191611 / 9007199254740992, index = 2\<rparr>,
      \<lparr>sentence = ''D.'', score = 4638707616191611 / 9007199254740992, index = 3\<rparr>,
      \<lparr>sentence = ''E.'', score = 869757678035927 / 1125899906842624, index = 4\<rparr>]"
proof -
  let ?wf = "calculateWordFrequency ''A. B. C. D. E.''"
  have a: "scoreSentence ''A.'' ?wf 0 5 = 869757678035927 / 1125899906842624"
    by code_simp
  have b: "scoreSentence ''B.'' ?wf 1 5 = 4638707616191611 / 9007199254740992"
    by code_simp
  have c: "scoreSentence ''C.'' ?wf 2 5 = 4638707616191611 / 9007199254740992"
    by code_simp
  have d: "scoreSentence ''D.'' ?wf 3 5 = 4638707616191611 / 9007199254740992"
    by code_simp
  have e: "scoreSentence ''E.'' ?wf 4 5 = 869757678035927 / 1125899906842624"
    by code_simp
  have en: "enumerate 0 [''A.'', ''B.'', ''C.'', ''D.'', ''E.''] =
      [(0, ''A.''), (1, ''B.''), (2, ''C.''), (3, ''D.''), (4, ''E.'')]"
    by code_simp
  have n: "length [''A.'', ''B.'', ''C.'', ''D.'', ''E.''] = 5"
    by simp
  show ?thesis
    unfolding sentenceScores_def split_five Let_def en n
    by (simp only: list.map prod.case a b c d e)
qed

lemma top_five_two:
  "topSentences ''A. B. C. D. E.'' 2 =
     [\<lparr>sentence = ''A.'', score = 869757678035927 / 1125899906842624, index = 0\<rparr>,
      \<lparr>sentence = ''E.'', score = 869757678035927 / 1125899906842624, index = 4\<rparr>]"
  unfolding topSentences_taken split_five sentenceScores_five
  by code_simp

lemma top_five_minus_one:
  "topSentences ''A. B. C. D. E.'' (- 1) =
     [\<lparr>sentence = ''A.'', score = 869757678035927 / 1125899906842624, index = 0\<rparr>,
      \<lparr>sentence = ''B.'', score = 4638707616191611 / 9007199254740992, index = 1\<rparr>,
      \<lparr>sentence = ''C.'', score = 4638707616191611 / 9007199254740992, index = 2\<rparr>,
      \<lparr>sentence = ''E.'', score = 869757678035927 / 1125899906842624, index = 4\<rparr>]"
  unfolding topSentences_taken split_five sentenceScores_five
  by code_simp

subsection \<open>The selection\<close>

text \<open>
  C2. For a positive \<^verbatim>\<open>maxSentences\<close> below the number of sentences, the summary is
  the join, with one space, of exactly \<^verbatim>\<open>maxSentences\<close> of the sentences, in the
  order in which they stand in the text.
\<close>

theorem summarize_selects_max:
  assumes "0 < maxSentences"
    and "maxSentences < int (length (splitIntoSentences text))"
  shows "\<exists>ss. subseq ss (splitIntoSentences text) \<and> length ss = nat maxSentences
              \<and> summarize text maxSentences = join '' '' ss"
proof -
  let ?ss = "map sentence (topSentences text maxSentences)"
  have "subseq ?ss (map sentence (sentenceScores text))"
    by (rule subseq_map) (rule topSentences_subseq)
  then have "subseq ?ss (splitIntoSentences text)"
    by (simp only: map_sentence_sentenceScores)
  moreover have "length ?ss = nat maxSentences"
    using assms by (simp add: topSentences_length sliceBound_def)
  moreover have "summarize text maxSentences = join '' '' ?ss"
    using assms by (simp add: summarize_def)
  ultimately show ?thesis
    by blast
qed

theorem summarize_selects_max_witness:
  "(0::int) < 2 \<and> 2 < int (length (splitIntoSentences ''A. B. C. D. E.''))
   \<and> (\<exists>ss. subseq ss (splitIntoSentences ''A. B. C. D. E.'') \<and> length ss = nat 2
             \<and> summarize ''A. B. C. D. E.'' 2 = join '' '' ss)"
proof -
  have h1: "(0::int) < 2"
    by simp
  have h2: "2 < int (length (splitIntoSentences ''A. B. C. D. E.''))"
    by code_simp
  from h1 h2 summarize_selects_max [OF h1 h2] show ?thesis
    by blast
qed

text \<open>
  C10. For a negative \<^verbatim>\<open>maxSentences = m\<close> and a text of \<open>n \<ge> 1\<close> sentences the
  short-circuit is not taken: \<^verbatim>\<open>slice(0, m)\<close> keeps \<open>n + m\<close> entries (none when
  \<open>n + m \<le> 0\<close>), none of them scored below an entry that is left out, and the summary
  joins them in the order of the text.
\<close>

theorem summarize_negative_max:
  assumes "1 \<le> length (splitIntoSentences text)" and "m < 0"
  shows "summarize text m = join '' '' (map sentence (topSentences text m))
     \<and> subseq (topSentences text m) (sentenceScores text)
     \<and> map sentence (sentenceScores text) = splitIntoSentences text
     \<and> length (topSentences text m) = nat (int (length (splitIntoSentences text)) + m)
     \<and> (\<forall>a\<in>set (topSentences text m). \<forall>b\<in>set (sentenceScores text).
           b \<notin> set (topSentences text m) \<longrightarrow> score b \<le> score a)
     \<and> (int (length (splitIntoSentences text)) + m \<le> 0 \<longrightarrow> summarize text m = [])"
proof -
  have sm: "summarize text m = join '' '' (map sentence (topSentences text m))"
    using assms by (simp add: summarize_def)
  have len: "length (topSentences text m) = nat (int (length (splitIntoSentences text)) + m)"
    using assms by (simp add: topSentences_length sliceBound_def)
  have emp: "summarize text m = []" if "int (length (splitIntoSentences text)) + m \<le> 0"
  proof -
    from that len have "topSentences text m = []"
      by simp
    with sm show ?thesis
      by simp
  qed
  from sm len emp topSentences_subseq [of "text" m] map_sentence_sentenceScores [of "text"]
    topSentences_best [of _ "text" m]
  show ?thesis
    by blast
qed

theorem summarize_negative_max_witness:
  "1 \<le> length (splitIntoSentences ''A. B. C. D. E.'') \<and> (- 1 :: int) < 0
   \<and> length (topSentences ''A. B. C. D. E.'' (- 1)) = 4
   \<and> summarize ''A. B. C. D. E.'' (- 1) = ''A. B. C. E.''
   \<and> 1 \<le> length (splitIntoSentences ''A. B.'') \<and> (- 5 :: int) < 0
   \<and> summarize ''A. B.'' (- 5) = []"
proof -
  have n5: "length (splitIntoSentences ''A. B. C. D. E.'') = 5"
    by code_simp
  have n2: "length (splitIntoSentences ''A. B.'') = 2"
    by code_simp
  have h1: "1 \<le> length (splitIntoSentences ''A. B. C. D. E.'')"
    by (simp add: n5)
  have h2: "(- 1 :: int) < 0"
    by simp
  have h3: "1 \<le> length (splitIntoSentences ''A. B.'')"
    by (simp add: n2)
  have h4: "(- 5 :: int) < 0"
    by simp
  have v: "summarize ''A. B. C. D. E.'' (- 1) = ''A. B. C. E.''"
    by (simp add: summarize_def split_five top_five_minus_one)
  from summarize_negative_max [OF h1 h2]
  have "length (topSentences ''A. B. C. D. E.'' (- 1)) = 4"
    by (simp add: n5)
  moreover from summarize_negative_max [OF h3 h4]
  have "summarize ''A. B.'' (- 5) = []"
    by (simp add: n2)
  ultimately show ?thesis
    using h1 h2 h3 h4 v by blast
qed

subsection \<open>The segmenter\<close>

lemma terminator_not_blank: "isTerminator c \<Longrightarrow> \<not> isWhitespace c"
  by (auto simp: isTerminator_def isWhitespace_def)

lemma blank_not_bar: "isWhitespace c \<Longrightarrow> c \<noteq> CHR ''|''"
  by (auto simp: isWhitespace_def)

lemma startsBlank_Nil: "startsBlank [] = False"
  by (simp add: startsBlank_def)

lemma startsBlank_Cons: "startsBlank (d # cs) = isWhitespace d"
  by (simp add: startsBlank_def)

lemma replaceBoundaries_id: "\<not> hasBoundary xs \<Longrightarrow> replaceBoundaries xs = xs"
  by (induction xs) auto

lemma replaceBoundaries_prefix:
  "\<not> hasBoundary (xs @ [c]) \<Longrightarrow> replaceBoundaries (xs @ c # ys) = xs @ replaceBoundaries (c # ys)"
proof (induction xs)
  case Nil
  show ?case by simp
next
  case (Cons x xs)
  from Cons.prems have nb: "\<not> hasBoundary (xs @ [c])"
    and nx: "\<not> (isTerminator x \<and> startsBlank (xs @ [c]))"
    by simp_all
  from nx have "\<not> (isTerminator x \<and> startsBlank (xs @ c # ys))"
    by (cases xs) (simp_all add: startsBlank_Cons)
  then have "replaceBoundaries (x # (xs @ c # ys)) = x # replaceBoundaries (xs @ c # ys)"
    by (simp only: replaceBoundaries.simps(2) if_False)
  with Cons.IH [OF nb] show ?case
    by (simp del: replaceBoundaries.simps)
qed

text \<open>A run of terminators has no boundary inside.\<close>

lemma terminators_no_boundary: "\<forall>c\<in>set p. isTerminator c \<Longrightarrow> \<not> hasBoundary p"
proof (induction p)
  case Nil
  show ?case by simp
next
  case (Cons t p)
  then have "\<not> startsBlank p"
    by (cases p) (auto simp: startsBlank_Nil startsBlank_Cons dest: terminator_not_blank)
  with Cons show ?case
    by simp
qed

lemma splitOn_no_separator: "d \<notin> set xs \<Longrightarrow> splitOn d xs = [xs]"
  by (induction xs) auto

text \<open>The filter of the segmenter drops exactly the pieces made of blanks only.\<close>

lemma trim_empty_iff: "(trim s = []) = (\<forall>c\<in>set s. isWhitespace c)"
proof -
  have "(trim s = []) = (\<forall>c\<in>set (dropWhile isWhitespace s). isWhitespace c)"
    by (simp add: trim_def dropWhile_eq_Nil_conv)
  also have "\<dots> = (dropWhile isWhitespace s = [])"
  proof
    assume all: "\<forall>c\<in>set (dropWhile isWhitespace s). isWhitespace c"
    show "dropWhile isWhitespace s = []"
    proof (rule ccontr)
      assume ne: "dropWhile isWhitespace s \<noteq> []"
      then have "\<not> isWhitespace (hd (dropWhile isWhitespace s))"
        by (rule hd_dropWhile)
      moreover from ne have "hd (dropWhile isWhitespace s) \<in> set (dropWhile isWhitespace s)"
        by (rule hd_in_set)
      ultimately show False
        using all by blast
    qed
  next
    assume "dropWhile isWhitespace s = []"
    then show "\<forall>c\<in>set (dropWhile isWhitespace s). isWhitespace c"
      by (simp only: list.set ball_empty)
  qed
  also have "\<dots> = (\<forall>c\<in>set s. isWhitespace c)"
    by (simp add: dropWhile_eq_Nil_conv)
  finally show ?thesis .
qed

lemma splitIntoSentences_no_boundary:
  assumes "\<not> hasBoundary s" and "CHR ''|'' \<notin> set s"
  shows "splitIntoSentences s = (if \<forall>c\<in>set s. isWhitespace c then [] else [s])"
  using assms
  by (simp add: splitIntoSentences_def replaceBoundaries_id splitOn_no_separator trim_empty_iff)

lemma dropWhile_before_letter:
  "\<not> P t \<Longrightarrow> dropWhile P (cs @ t # rest) = dropWhile P cs @ t # rest"
  by (induction cs) simp_all

lemma startsBlank_before_letter:
  "\<not> isWhitespace t \<Longrightarrow> startsBlank (cs @ t # rest) = startsBlank cs"
  by (cases cs) (simp_all add: startsBlank_def)

text \<open>
  A character that is not a blank ends every match before it, so the scan of what
  stands before it does not depend on what follows.
\<close>

lemma replaceBoundaries_append:
  assumes t: "\<not> isWhitespace t"
  shows "replaceBoundaries (xs @ t # rest) = replaceBoundaries xs @ replaceBoundaries (t # rest)"
proof (induction xs rule: replaceBoundaries.induct)
  case 1
  show ?case by simp
next
  case (2 c cs)
  show ?case
  proof (cases "isTerminator c \<and> startsBlank cs")
    case True
    then have m: "isTerminator c \<and> startsBlank (cs @ t # rest)"
      using t by (simp add: startsBlank_before_letter)
    have "replaceBoundaries ((c # cs) @ t # rest) =
        c # CHR ''|'' # replaceBoundaries (dropWhile isWhitespace (cs @ t # rest))"
      using m by (simp del: replaceBoundaries.simps
          add: replaceBoundaries.simps(2) [of c "cs @ t # rest"])
    also have "\<dots> = c # CHR ''|'' # replaceBoundaries (dropWhile isWhitespace cs @ t # rest)"
      by (simp only: dropWhile_before_letter [of isWhitespace, OF t])
    also have "\<dots> = c # CHR ''|'' # (replaceBoundaries (dropWhile isWhitespace cs)
        @ replaceBoundaries (t # rest))"
      using "2.IH"(1) [OF True] by (simp only:)
    also have "\<dots> = replaceBoundaries (c # cs) @ replaceBoundaries (t # rest)"
      using True by (simp del: replaceBoundaries.simps
          add: replaceBoundaries.simps(2) [of c cs])
    finally show ?thesis .
  next
    case False
    then have m: "\<not> (isTerminator c \<and> startsBlank (cs @ t # rest))"
      using t by (simp add: startsBlank_before_letter)
    have "replaceBoundaries ((c # cs) @ t # rest) = c # replaceBoundaries (cs @ t # rest)"
      using m by (auto simp del: replaceBoundaries.simps
          simp add: replaceBoundaries.simps(2) [of c "cs @ t # rest"])
    also have "\<dots> = c # (replaceBoundaries cs @ replaceBoundaries (t # rest))"
      using "2.IH"(2) [OF False] by (simp only:)
    also have "\<dots> = replaceBoundaries (c # cs) @ replaceBoundaries (t # rest)"
      using False by (auto simp del: replaceBoundaries.simps
          simp add: replaceBoundaries.simps(2) [of c cs])
    finally show ?thesis .
  qed
qed

lemma replaceBoundaries_terminators:
  "\<forall>c\<in>set p. isTerminator c \<Longrightarrow> replaceBoundaries p = p"
  by (rule replaceBoundaries_id) (rule terminators_no_boundary)

lemma replaceBoundaries_one_run:
  assumes p: "p \<noteq> []" "\<forall>c\<in>set p. isTerminator c"
    and w: "w \<noteq> []" "\<forall>c\<in>set w. isWhitespace c"
    and b: "\<not> startsBlank b"
  shows "replaceBoundaries (a @ p @ w @ b) = replaceBoundaries a @ p @ CHR ''|'' # replaceBoundaries b"
proof -
  from p(1) obtain q t where pq: "p = q @ [t]"
    by (cases p rule: rev_cases) auto
  from p(1) obtain t0 p0 where p0: "p = t0 # p0"
    by (cases p) auto
  from w(1) obtain s v where ws: "w = s # v"
    by (cases w) auto
  from pq p(2) have t: "isTerminator t"
    by simp
  from p0 p(2) have t0: "\<not> isWhitespace t0"
    by (simp add: terminator_not_blank)
  from ws w(2) have s: "isWhitespace s"
    by simp
  have dw: "dropWhile isWhitespace (v @ b) = b"
    using w(2) b by (cases b) (simp_all add: ws startsBlank_def)
  have nb: "\<not> hasBoundary (q @ [t])"
    unfolding pq [symmetric] using p(2) by (rule terminators_no_boundary)
  have e1: "replaceBoundaries (a @ p @ w @ b) =
      replaceBoundaries a @ replaceBoundaries (t0 # (p0 @ w @ b))"
    using replaceBoundaries_append [OF t0, of a "p0 @ w @ b"]
    by (simp add: p0 del: replaceBoundaries.simps)
  have e2: "t0 # (p0 @ w @ b) = q @ t # (w @ b)"
    using p0 pq by (metis append_Cons append_Nil append_assoc)
  have e3: "replaceBoundaries (q @ t # (w @ b)) = q @ replaceBoundaries (t # (w @ b))"
    using nb by (rule replaceBoundaries_prefix)
  have e4: "replaceBoundaries (t # (w @ b)) = t # CHR ''|'' # replaceBoundaries b"
    using t s dw by (simp add: ws startsBlank_Cons del: replaceBoundaries.simps
        add: replaceBoundaries.simps(2) [of t])
  have "replaceBoundaries (a @ p @ w @ b) =
      replaceBoundaries a @ q @ t # CHR ''|'' # replaceBoundaries b"
    by (simp only: e1 e2 e3 e4)
  then show ?thesis
    by (simp add: pq del: replaceBoundaries.simps)
qed

lemma splitOn_not_Nil: "splitOn d xs \<noteq> []"
  by (cases xs) (auto split: list.splits)

lemma splitOn_append_separator:
  "splitOn d (u @ d # v) = splitOn d u @ splitOn d v"
proof (induction u)
  case Nil
  show ?case by simp
next
  case (Cons c u)
  obtain x xs where sp: "splitOn d u = x # xs"
    using splitOn_not_Nil [of d u] by (cases "splitOn d u") auto
  with Cons show ?case
    by simp
qed

lemma splitIntoSentences_one_run:
  assumes p: "p \<noteq> []" "\<forall>c\<in>set p. isTerminator c"
    and w: "w \<noteq> []" "\<forall>c\<in>set w. isWhitespace c"
    and b: "\<not> startsBlank b"
  shows "splitIntoSentences (a @ p @ w @ b) = splitIntoSentences (a @ p) @ splitIntoSentences b"
proof -
  from p(1) obtain t0 p0 where p0: "p = t0 # p0"
    by (cases p) auto
  with p(2) have t0: "\<not> isWhitespace t0"
    by (simp add: terminator_not_blank)
  have "replaceBoundaries (a @ p) = replaceBoundaries a @ replaceBoundaries p"
    unfolding p0 using t0 by (rule replaceBoundaries_append)
  then have ap: "replaceBoundaries (a @ p) = replaceBoundaries a @ p"
    using p(2) by (simp only: replaceBoundaries_terminators)
  have "replaceBoundaries (a @ p @ w @ b) = replaceBoundaries (a @ p) @ CHR ''|'' # replaceBoundaries b"
    using replaceBoundaries_one_run [OF assms, of a] by (simp only: ap append_assoc)
  then show ?thesis
    by (simp only: splitIntoSentences_def splitOn_append_separator filter_append)
qed

text \<open>
  C7, as amended. A text without a boundary and without a bar, with at least one
  character that is not a blank, is one segment, the whole text; a text of blanks only
  (the empty text too) has no segment. A run \<open>p\<close> of terminators followed by a run \<open>w\<close>
  of blanks gives one split point, whatever stands before it and whatever follows, as
  long as \<open>w\<close> is the whole run of blanks (what follows does not start with a blank):
  one bar is put behind the whole of \<open>p\<close>, and the segments of the text are those of
  the part up to the end of \<open>p\<close> followed by those of the part behind \<open>w\<close>.
\<close>

theorem splitIntoSentences_boundaries:
  "(\<not> hasBoundary s \<and> CHR ''|'' \<notin> set s \<and> (\<exists>c\<in>set s. \<not> isWhitespace c)
      \<longrightarrow> splitIntoSentences s = [s])
   \<and> ((\<forall>c\<in>set s. isWhitespace c) \<longrightarrow> splitIntoSentences s = [])
   \<and> (p \<noteq> [] \<and> (\<forall>c\<in>set p. isTerminator c)
      \<and> w \<noteq> [] \<and> (\<forall>c\<in>set w. isWhitespace c) \<and> \<not> startsBlank b
      \<longrightarrow> replaceBoundaries (a @ p @ w @ b) =
            replaceBoundaries a @ p @ CHR ''|'' # replaceBoundaries b
          \<and> splitIntoSentences (a @ p @ w @ b) =
            splitIntoSentences (a @ p) @ splitIntoSentences b)"
proof (intro conjI impI)
  assume "\<not> hasBoundary s \<and> CHR ''|'' \<notin> set s \<and> (\<exists>c\<in>set s. \<not> isWhitespace c)"
  then show "splitIntoSentences s = [s]"
    by (simp add: splitIntoSentences_no_boundary)
next
  assume blank: "\<forall>c\<in>set s. isWhitespace c"
  then have "\<not> hasBoundary s"
    by (induction s) (auto dest: terminator_not_blank)
  moreover from blank have "CHR ''|'' \<notin> set s"
    using blank_not_bar by blast
  ultimately show "splitIntoSentences s = []"
    using blank by (simp add: splitIntoSentences_no_boundary)
next
  assume "p \<noteq> [] \<and> (\<forall>c\<in>set p. isTerminator c)
      \<and> w \<noteq> [] \<and> (\<forall>c\<in>set w. isWhitespace c) \<and> \<not> startsBlank b"
  then show "replaceBoundaries (a @ p @ w @ b) =
      replaceBoundaries a @ p @ CHR ''|'' # replaceBoundaries b"
    by (intro replaceBoundaries_one_run) simp_all
next
  assume "p \<noteq> [] \<and> (\<forall>c\<in>set p. isTerminator c)
      \<and> w \<noteq> [] \<and> (\<forall>c\<in>set w. isWhitespace c) \<and> \<not> startsBlank b"
  then show "splitIntoSentences (a @ p @ w @ b) =
      splitIntoSentences (a @ p) @ splitIntoSentences b"
    by (intro splitIntoSentences_one_run) simp_all
qed

theorem splitIntoSentences_boundaries_witness:
  "\<not> hasBoundary ''Hello world'' \<and> CHR ''|'' \<notin> set ''Hello world''
   \<and> splitIntoSentences ''Hello world'' = [''Hello world'']
   \<and> splitIntoSentences ''  '' = []
   \<and> splitIntoSentences (''What'' @ ''?!'' @ '' '' @ ''Yes.'') = [''What'' @ ''?!'', ''Yes.'']
   \<and> replaceBoundaries (''A. B'' @ ''.'' @ ''  '' @ ''C. D.'') = ''A.|B.|C.|D.''
   \<and> splitIntoSentences (''A. B'' @ ''.'' @ ''  '' @ ''C. D.'') = [''A.'', ''B.'', ''C.'', ''D.'']
   \<and> splitIntoSentences (''a|b'' @ ''...'' @ '' '' @ []) = [''a'', ''b...'']"
proof -
  have r: "replaceBoundaries ''A. B'' = ''A.|B''" "replaceBoundaries ''C. D.'' = ''C.|D.''"
    by code_simp+
  have s: "splitIntoSentences ''What?!'' = [''What?!'']"
    "splitIntoSentences ''Yes.'' = [''Yes.'']"
    "splitIntoSentences ''A. B.'' = [''A.'', ''B.'']"
    "splitIntoSentences ''C. D.'' = [''C.'', ''D.'']"
    "splitIntoSentences ''a|b...'' = [''a'', ''b...'']"
    "splitIntoSentences [] = []"
    by code_simp+
  from splitIntoSentences_boundaries
    [of "''Hello world''" "''?!''" "'' ''" "''Yes.''" "''What''"]
    splitIntoSentences_boundaries [of "''  ''" "''.''" "''  ''" "''C. D.''" "''A. B''"]
    splitIntoSentences_boundaries [of "[]" "''...''" "'' ''" "[]" "''a|b''"]
  show ?thesis
    by (simp add: isWhitespace_def isTerminator_def startsBlank_def r s
        del: replaceBoundaries.simps)
qed

text \<open>
  C7, as stated, fails: the empty text has no boundary and gives no segment, and the
  text \<^verbatim>\<open>"a|b"\<close> has no boundary and gives two segments.
\<close>

theorem splitIntoSentences_single_counterexample:
  "\<not> hasBoundary [] \<and> splitIntoSentences [] = []
   \<and> \<not> hasBoundary ''a|b'' \<and> splitIntoSentences ''a|b'' = [''a'', ''b'']"
  by (simp add: splitIntoSentences_def trim_def isWhitespace_def isTerminator_def
      startsBlank_def)

subsection \<open>The frequency model\<close>

text \<open>The character classes and the case mapping, read on character codes.\<close>

lemma char_eq_code: "(c = d) = ((of_char c :: nat) = of_char d)"
  by simp

lemma isPunctuation_code:
  "isPunctuation c =
     ((of_char c :: nat) \<in> {46, 44, 33, 63, 59, 58, 40, 41, 91, 93, 123, 125, 39, 34})"
  unfolding isPunctuation_def insert_iff empty_iff
  by (simp only: char_eq_code [of c]) simp

lemma of_char_lowerChar:
  "(of_char (lowerChar c) :: nat) =
     (if (65 \<le> (of_char c :: nat) \<and> (of_char c :: nat) \<le> 90)
         \<or> (192 \<le> (of_char c :: nat) \<and> (of_char c :: nat) \<le> 222 \<and> (of_char c :: nat) \<noteq> 215)
      then of_char c + 32 else of_char c)"
  by (simp add: lowerChar_def Let_def)

lemma lowerChar_idem: "lowerChar (lowerChar c) = lowerChar c"
proof -
  have "(of_char (lowerChar (lowerChar c)) :: nat) = of_char (lowerChar c)"
    by (simp add: of_char_lowerChar)
  then show ?thesis
    by (simp only: of_char_eq_iff)
qed

lemma isPunctuation_lowerChar: "isPunctuation (lowerChar c) = isPunctuation c"
  by (simp add: isPunctuation_code of_char_lowerChar)

text \<open>
  Splitting at blanks and dropping the empty pieces distributes over a blank: the
  words of \<open>xs\<close>, a blank and \<open>ys\<close> are the words of \<open>xs\<close> followed by those of \<open>ys\<close>.
\<close>

lemma splitWhitespace_not_Nil: "splitWhitespace xs \<noteq> []"
  by (cases xs) (auto split: list.splits)

lemma splitWhitespace_blank:
  "isWhitespace c \<Longrightarrow>
     splitWhitespace (c # cs) = [] # splitWhitespace (dropWhile isWhitespace cs)"
  by simp

lemma splitWhitespace_letter:
  "\<not> isWhitespace c \<Longrightarrow>
     splitWhitespace (c # cs) = (c # hd (splitWhitespace cs)) # tl (splitWhitespace cs)"
  using splitWhitespace_not_Nil [of cs]
  by (cases "splitWhitespace cs") (simp_all del: splitWhitespace.simps add: splitWhitespace.simps(2) [of c cs])

lemma words_dropWhile:
  "filter (\<lambda>word. 0 < length word) (splitWhitespace (dropWhile isWhitespace ys)) =
     filter (\<lambda>word. 0 < length word) (splitWhitespace ys)"
proof (cases ys)
  case Nil
  then show ?thesis by simp
next
  case (Cons c cs)
  show ?thesis
  proof (cases "isWhitespace c")
    case True
    then show ?thesis
      unfolding Cons by (simp only: splitWhitespace_blank dropWhile.simps if_True) simp
  next
    case False
    then show ?thesis
      unfolding Cons by (simp only: dropWhile.simps if_False)
  qed
qed

lemma splitWhitespace_append_blank:
  assumes s: "isWhitespace s"
  shows "hd (splitWhitespace (xs @ s # ys)) = hd (splitWhitespace xs)
     \<and> filter (\<lambda>word. 0 < length word) (tl (splitWhitespace (xs @ s # ys))) =
         filter (\<lambda>word. 0 < length word) (tl (splitWhitespace xs))
           @ filter (\<lambda>word. 0 < length word) (splitWhitespace ys)"
proof (induction xs)
  case Nil
  have "splitWhitespace ([] @ s # ys) = [] # splitWhitespace (dropWhile isWhitespace ys)"
    using s by (simp only: append_Nil splitWhitespace_blank)
  then show ?case
    using words_dropWhile [of ys] by (simp del: splitWhitespace.simps(2))
next
  case (Cons x xs)
  let ?ne = "\<lambda>word :: string. 0 < length word"
  let ?zs = "xs @ s # ys"
  have whole: "filter ?ne (splitWhitespace zs) =
      filter ?ne [hd (splitWhitespace zs)] @ filter ?ne (tl (splitWhitespace zs))" for zs
    using splitWhitespace_not_Nil [of zs] by (cases "splitWhitespace zs") simp_all
  show ?case
  proof (cases "isWhitespace x")
    case True
    have l: "splitWhitespace ((x # xs) @ s # ys) = [] # splitWhitespace (dropWhile isWhitespace ?zs)"
      using True by (simp only: append_Cons splitWhitespace_blank)
    have r: "splitWhitespace (x # xs) = [] # splitWhitespace (dropWhile isWhitespace xs)"
      using True by (rule splitWhitespace_blank)
    have "filter ?ne (splitWhitespace (dropWhile isWhitespace ?zs)) = filter ?ne (splitWhitespace ?zs)"
      by (rule words_dropWhile)
    also have "\<dots> = filter ?ne [hd (splitWhitespace ?zs)] @ filter ?ne (tl (splitWhitespace ?zs))"
      by (rule whole)
    also have "\<dots> = filter ?ne [hd (splitWhitespace xs)] @ filter ?ne (tl (splitWhitespace xs))
        @ filter ?ne (splitWhitespace ys)"
      using Cons.IH by (simp only:)
    also have "\<dots> = filter ?ne (splitWhitespace xs) @ filter ?ne (splitWhitespace ys)"
      using whole [of xs] by (simp only: append_assoc)
    also have "filter ?ne (splitWhitespace xs) = filter ?ne (splitWhitespace (dropWhile isWhitespace xs))"
      by (rule words_dropWhile [symmetric])
    finally show ?thesis
      by (simp only: l r list.sel)
  next
    case False
    have l: "splitWhitespace ((x # xs) @ s # ys) =
        (x # hd (splitWhitespace ?zs)) # tl (splitWhitespace ?zs)"
      unfolding append_Cons using False by (rule splitWhitespace_letter)
    have r: "splitWhitespace (x # xs) = (x # hd (splitWhitespace xs)) # tl (splitWhitespace xs)"
      using False by (rule splitWhitespace_letter)
    from Cons.IH show ?thesis
      by (simp only: l r list.sel)
  qed
qed

lemma words_append_blank:
  assumes "isWhitespace s"
  shows "filter (\<lambda>word. 0 < length word) (splitWhitespace (xs @ s # ys)) =
     filter (\<lambda>word. 0 < length word) (splitWhitespace xs)
       @ filter (\<lambda>word. 0 < length word) (splitWhitespace ys)"
proof -
  let ?ne = "\<lambda>word :: string. 0 < length word"
  have whole: "filter ?ne (splitWhitespace zs) =
      filter ?ne [hd (splitWhitespace zs)] @ filter ?ne (tl (splitWhitespace zs))" for zs
    using splitWhitespace_not_Nil [of zs] by (cases "splitWhitespace zs") simp_all
  from splitWhitespace_append_blank [OF assms, of xs ys]
  have h: "hd (splitWhitespace (xs @ s # ys)) = hd (splitWhitespace xs)"
    and t: "filter ?ne (tl (splitWhitespace (xs @ s # ys))) =
         filter ?ne (tl (splitWhitespace xs)) @ filter ?ne (splitWhitespace ys)"
    by simp_all
  have "filter ?ne (splitWhitespace (xs @ s # ys)) =
      filter ?ne [hd (splitWhitespace xs)] @ filter ?ne (tl (splitWhitespace xs))
        @ filter ?ne (splitWhitespace ys)"
    using whole [of "xs @ s # ys"] by (simp only: h t)
  then show ?thesis
    using whole [of xs] by (simp only: append_assoc)
qed

lemma normalizedWords_append_space:
  "normalizedWords (a @ CHR '' '' # b) = normalizedWords a @ normalizedWords b"
proof -
  have sp: "lowerChar CHR '' '' = CHR '' ''" "\<not> isPunctuation CHR '' ''" "isWhitespace CHR '' ''"
    by (simp_all add: lowerChar_def isPunctuation_def isWhitespace_def)
  have "filter (\<lambda>c. \<not> isPunctuation c) (toLowerCase (a @ CHR '' '' # b)) =
      filter (\<lambda>c. \<not> isPunctuation c) (toLowerCase a)
        @ CHR '' '' # filter (\<lambda>c. \<not> isPunctuation c) (toLowerCase b)"
    by (simp add: toLowerCase_def sp)
  then show ?thesis
    unfolding normalizedWords_def by (simp only: words_append_blank [OF sp(3)])
qed

text \<open>The counting loop stores, for every word, the number of its occurrences.\<close>

lemma fold_frequency:
  "fold (\<lambda>word frequency. frequency(word \<mapsto> getOrZero frequency word + 1)) ws m =
     (\<lambda>w. if count_list ws w = 0 then m w else Some (getOrZero m w + count_list ws w))"
proof -
  define step :: "string \<Rightarrow> (string \<rightharpoonup> nat) \<Rightarrow> (string \<rightharpoonup> nat)"
    where "step = (\<lambda>word frequency. frequency(word \<mapsto> getOrZero frequency word + 1))"
  have "fold step ws m =
      (\<lambda>w. if count_list ws w = 0 then m w else Some (getOrZero m w + count_list ws w))"
  proof (induction ws arbitrary: m)
    case Nil
    show ?case by simp
  next
    case (Cons x ws)
    have "fold step (x # ws) m = fold step ws (step x m)"
      by simp
    also have "\<dots> = (\<lambda>w. if count_list ws w = 0 then step x m w
        else Some (getOrZero (step x m) w + count_list ws w))"
      by (rule Cons.IH)
    also have "\<dots> = (\<lambda>w. if count_list (x # ws) w = 0 then m w
        else Some (getOrZero m w + count_list (x # ws) w))"
      by (auto simp: step_def fun_eq_iff getOrZero_def)
    finally show ?case .
  qed
  then show ?thesis
    unfolding step_def .
qed

lemma calculateWordFrequency_count:
  "calculateWordFrequency s =
     (\<lambda>w. if count_list (normalizedWords s) w = 0 then None
          else Some (count_list (normalizedWords s) w))"
  unfolding calculateWordFrequency_def fold_frequency
  by (auto simp: fun_eq_iff getOrZero_def)

lemma getOrZero_calculateWordFrequency:
  "getOrZero (calculateWordFrequency s) w = count_list (normalizedWords s) w"
  by (simp add: calculateWordFrequency_count getOrZero_def)

lemma frequency_with_word:
  assumes "normalizedWords raw = [k]"
  shows "calculateWordFrequency (a @ CHR '' '' # raw @ CHR '' '' # b) =
     (calculateWordFrequency (a @ CHR '' '' # b))
       (k \<mapsto> getOrZero (calculateWordFrequency (a @ CHR '' '' # b)) k + 1)"
proof -
  have "normalizedWords (a @ CHR '' '' # raw @ CHR '' '' # b) =
      normalizedWords a @ k # normalizedWords b"
    using assms by (simp add: normalizedWords_append_space)
  then show ?thesis
    by (simp add: fun_eq_iff calculateWordFrequency_count getOrZero_def
        normalizedWords_append_space)
qed

lemma normalizedWords_toLowerCase: "normalizedWords (toLowerCase s) = normalizedWords s"
  by (simp add: normalizedWords_def toLowerCase_def comp_def lowerChar_idem)

lemma normalizedWords_strip:
  "normalizedWords (filter (\<lambda>c. \<not> isPunctuation c) s) = normalizedWords s"
  by (simp add: normalizedWords_def toLowerCase_def filter_map comp_def isPunctuation_lowerChar)

text \<open>
  C8. Counting is insensitive to case and to the punctuation set: between blanks, each
  of the occurrences \<^verbatim>\<open>Cat\<close>, \<^verbatim>\<open>cat,\<close> and \<^verbatim>\<open>CAT\<close> raises the count
  of the key \<^verbatim>\<open>cat\<close> by one and changes no other key, so that the three together
  give the count 3; lower-casing a text or stripping the punctuation set from it leaves
  the frequency map as it is; and the count of a key is the number of its occurrences
  among the normalized words.
\<close>

theorem wordFrequency_insensitive:
  "calculateWordFrequency (a @ '' Cat '' @ b) =
     (calculateWordFrequency (a @ '' '' @ b))
       (''cat'' \<mapsto> getOrZero (calculateWordFrequency (a @ '' '' @ b)) ''cat'' + 1)
   \<and> calculateWordFrequency (a @ '' cat, '' @ b) =
     (calculateWordFrequency (a @ '' '' @ b))
       (''cat'' \<mapsto> getOrZero (calculateWordFrequency (a @ '' '' @ b)) ''cat'' + 1)
   \<and> calculateWordFrequency (a @ '' CAT '' @ b) =
     (calculateWordFrequency (a @ '' '' @ b))
       (''cat'' \<mapsto> getOrZero (calculateWordFrequency (a @ '' '' @ b)) ''cat'' + 1)
   \<and> calculateWordFrequency ''Cat cat, CAT'' ''cat'' = Some 3
   \<and> calculateWordFrequency (toLowerCase s) = calculateWordFrequency s
   \<and> calculateWordFrequency (filter (\<lambda>c. \<not> isPunctuation c) s) = calculateWordFrequency s
   \<and> getOrZero (calculateWordFrequency s) w = count_list (normalizedWords s) w"
proof -
  have w1: "normalizedWords ''Cat'' = [''cat'']"
    by code_simp
  have w2: "normalizedWords ''cat,'' = [''cat'']"
    by code_simp
  have w3: "normalizedWords ''CAT'' = [''cat'']"
    by code_simp
  have c3: "calculateWordFrequency ''Cat cat, CAT'' ''cat'' = Some 3"
    by code_simp
  have lo: "calculateWordFrequency (toLowerCase s) = calculateWordFrequency s"
    by (simp only: calculateWordFrequency_def normalizedWords_toLowerCase)
  have st: "calculateWordFrequency (filter (\<lambda>c. \<not> isPunctuation c) s) = calculateWordFrequency s"
    by (simp only: calculateWordFrequency_def normalizedWords_strip)
  from frequency_with_word [OF w1, of a b] frequency_with_word [OF w2, of a b]
    frequency_with_word [OF w3, of a b] c3 lo st getOrZero_calculateWordFrequency [of s w]
  show ?thesis
    by simp
qed

subsection \<open>Runs\<close>









subsection \<open>Scenarios\<close>

text \<open>
  C5. Of the five one-letter sentences of \<^verbatim>\<open>"A. B. C. D. E."\<close> the first and the
  last are selected for \<^verbatim>\<open>maxSentences = 2\<close>, and the summary is \<^verbatim>\<open>"A. E."\<close>.
\<close>

theorem summarize_five_letters: "summarize ''A. B. C. D. E.'' 2 = ''A. E.''"
  by (simp add: summarize_def split_five top_five_two)

end
